theory Spec2Isabelle
  imports Main "HOL-Library.Sublist"
begin

section \<open>The web application of app.py\<close>

subsection \<open>Python values\<close>

text \<open>
  A Python exception is its class name and its message; \<open>str(e)\<close> is \<open>exn_msg e\<close>.
  Only subclasses of \<open>Exception\<close> are modelled (what \<open>except Exception\<close> catches).
\<close>

datatype exn = Exn (exn_class: string) (exn_msg: string)

text \<open>
  What lies outside app.py is a parameter of the model:
  \<^item> \<open>kickoff env n\<close> is the outcome of the \<open>n\<close>-th call of \<open>investment_crew.kickoff()\<close>
    (counted from 0): the exception it raises or the result it returns;
  \<^item> \<open>str_of env\<close> is \<open>str\<close> on such a result;
  \<^item> \<open>now env n\<close> is \<open>datetime.now().strftime("%Y-%m-%d %H:%M:%S")\<close> as evaluated
    after the \<open>n\<close>-th call of kickoff has returned;
  \<^item> \<open>markdown env\<close> is \<open>markdown2.markdown\<close>.
  Only the crew's kickoff is a call that may raise; \<open>str\<close>, \<open>strftime\<close>,
  \<open>markdown2.markdown\<close> on a string and \<open>render_template_string\<close> are taken to return.
\<close>

record 'r env =
  kickoff :: "nat \<Rightarrow> exn + 'r"
  str_of :: "'r \<Rightarrow> string"
  now :: "nat \<Rightarrow> string"
  markdown :: "string \<Rightarrow> string"

text \<open>
  The module's globals \<open>last_result\<close> and \<open>last_updated\<close> (both \<open>None\<close> at start),
  and the number of calls of \<open>investment_crew.kickoff()\<close> made so far.
\<close>

record state =
  last_result :: "string option"
  last_updated :: "string option"
  runs :: nat

definition initial :: state where
  "initial = \<lparr>last_result = None, last_updated = None, runs = 0\<rparr>"

subsection \<open>generate_recommendations (lines 101-109)\<close>

text \<open>
  The body runs the crew, assigns \<open>last_result\<close>, then \<open>last_updated\<close>, and returns the
  value of the global \<open>last_result\<close>. The handler \<open>except Exception as e: raise e\<close>
  raises what it caught.
\<close>

definition generate_recommendations ::
  "'r env \<Rightarrow> state \<Rightarrow> (exn + string option) \<times> state" where
  "generate_recommendations env s =
     (let n = runs s; s1 = s\<lparr>runs := Suc n\<rparr> in
      case kickoff env n of
        Inl e \<Rightarrow> (Inl e, s1)
      | Inr result \<Rightarrow>
          (let s2 = s1\<lparr>last_result := Some (str_of env result)\<rparr>;
               s3 = s2\<lparr>last_updated := Some (now env n)\<rparr>
           in (Inr (last_result s3), s3)))"

subsection \<open>index (lines 111-200)\<close>

record request =
  http_method :: string
  form :: "string \<rightharpoonup> string"

text \<open>
  A response is one of the two templates with the values passed to it:
  the error template with \<open>error\<close>, the report template with \<open>result_html\<close> and
  \<open>last_updated\<close>.
\<close>

datatype page =
    Error_page string
  | Report_page string "string option"

text \<open>
  Lines 144-200. \<open>result_str\<close> is a Python value that is a string or \<open>None\<close>;
  \<open>markdown2.markdown\<close> is defined on strings, and the model raises on \<open>None\<close>.
  The template reads the global \<open>last_updated\<close>.
\<close>

definition render :: "'r env \<Rightarrow> string option \<Rightarrow> state \<Rightarrow> (exn + page) \<times> state" where
  "render env result_str s =
     (case result_str of
        None \<Rightarrow> (Inl (Exn ''TypeError'' ''expected a string''), s)
      | Some r \<Rightarrow> (Inr (Report_page (markdown env r) (last_updated s)), s))"

text \<open>
  \<open>Inl e\<close> is an exception that leaves the view function; \<open>Inr p\<close> is the page it returns.
\<close>

definition index :: "'r env \<Rightarrow> request \<Rightarrow> state \<Rightarrow> (exn + page) \<times> state" where
  "index env req s =
     (if http_method req = ''POST'' \<and> form req ''refresh'' \<noteq> None then
        (case generate_recommendations env s of
           (Inl e, s') \<Rightarrow> (Inr (Error_page (exn_msg e)), s')
         | (Inr result_str, s') \<Rightarrow> render env result_str s')
      else if last_result s = None then
        (case generate_recommendations env s of
           (Inl e, s') \<Rightarrow> (Inl e, s')
         | (Inr result_str, s') \<Rightarrow> render env result_str s')
      else render env (last_result s) s)"

subsection \<open>MyCustomDuckDuckGoTool (lines 24-31)\<close>

text \<open>
  \<open>invoke\<close> stands for \<open>DuckDuckGoSearchRun().invoke\<close>: on a query it raises or
  returns the search result text. \<open>_run\<close> binds the response and returns it; it has
  no handler, so an exception of \<open>invoke\<close> leaves \<open>_run\<close> as it is.
\<close>

definition MyCustomDuckDuckGoTool_run :: "(string \<Rightarrow> exn + string) \<Rightarrow> string \<Rightarrow> exn + string" where
  "MyCustomDuckDuckGoTool_run invoke query =
     (case invoke query of Inl e \<Rightarrow> Inl e | Inr response \<Rightarrow> Inr response)"

subsection \<open>Agents, tasks and the crew (lines 33-91)\<close>

record agent =
  role :: string
  goal :: string
  backstory :: string
  tools :: "string list"

datatype task =
  Task (description: string) (expected_output: string) (agent: agent) (task_context: "task list")

definition market_researcher :: agent where
  "market_researcher =
     \<lparr>role = ''Stock Market Researcher'',
      goal = ''Identify the top performing stocks and sectors with strong growth potential for the current year'',
      backstory = ''You are a financial analyst with expertise in identifying high-growth stocks across different sectors.'',
      tools = [''DuckDuckGo Search Tool'']\<rparr>"

definition stock_analyst :: agent where
  "stock_analyst =
     \<lparr>role = ''Stock Analyst'',
      goal = ''Analyze and select the top 10 stocks to invest in for the current year'',
      backstory = ''You are a seasoned stock analyst with 10+ years of experience in fundamental and technical analysis.'',
      tools = [''DuckDuckGo Search Tool'']\<rparr>"

definition investment_advisor :: agent where
  "investment_advisor =
     \<lparr>role = ''Investment Advisor'',
      goal = ''Create a compelling investment recommendation report for the top 10 stocks'',
      backstory = ''You are a professional investment advisor who helps clients make informed decisions.'',
      tools = [''DuckDuckGo Search Tool'']\<rparr>"

definition market_research_task :: task where
  "market_research_task =
     Task ''Research current stock market trends and identify sectors with strong growth potential for the current year.''
          ''A list of 5-7 promising sectors with explanations of why they have growth potential this year''
          market_researcher []"

definition stock_selection_task :: task where
  "stock_selection_task =
     Task ''Based on the sector research, identify the top 10 stocks to invest in this year.''
          ''A list of 10 stocks with their basic information and investment rationale''
          stock_analyst [market_research_task]"

definition investment_report_task :: task where
  "investment_report_task =
     Task ''Create a comprehensive investment report presenting the top 10 stocks to invest in this year.''
          ''A well-formatted investment report in markdown with detailed analysis of each recommended stock''
          investment_advisor [market_research_task, stock_selection_task]"

text \<open>The \<open>tasks\<close> argument of \<open>investment_crew\<close> (line 88).\<close>

definition investment_crew_tasks :: "task list" where
  "investment_crew_tasks = [market_research_task, stock_selection_task, investment_report_task]"

subsection \<open>Requests served concurrently\<close>

text \<open>
  app.py creates no lock, and the development server started by \<open>app.run\<close> handles
  each request on a thread of its own; the threads share \<open>last_result\<close> and \<open>last_updated\<close>. A thread runs \<open>index\<close>. Its
  places are the lines of app.py at which it reads or writes a global or calls the
  crew, each with the local values it holds there:
  \<^item> \<open>At_115 req\<close>: \<open>index\<close> entered, the test of line 115 is next;
  \<^item> \<open>In_kickoff site n\<close>: inside \<open>investment_crew.kickoff()\<close> (line 104), the \<open>n\<close>-th
    run of the crew, called from line 117 (inside \<open>try\<close>) or from line 139;
  \<^item> \<open>At_105 n result\<close>: kickoff has returned \<open>result\<close>, \<open>last_result = str(result)\<close>
    is next;
  \<^item> \<open>At_106 n\<close>: \<open>last_updated = datetime.now().strftime(...)\<close> is next;
  \<^item> \<open>At_107\<close>: \<open>return last_result\<close> is next, the read of the global that becomes
    \<open>result_str\<close>;
  \<^item> \<open>At_141\<close>: line 138 found the cache non-empty, \<open>result_str = last_result\<close> is next;
  \<^item> \<open>At_144 result_str\<close>: lines 144-200 are next, with the read of \<open>last_updated\<close>
    for the template;
  \<^item> \<open>Finished r\<close>: \<open>index\<close> has returned a page or raised.
\<close>

datatype call_site = Line_117 | Line_139

datatype 'r place =
    At_115 request
  | In_kickoff call_site nat
  | At_105 nat 'r
  | At_106 nat
  | At_107
  | At_141
  | At_144 "string option"
  | Finished "exn + page"

text \<open>One step of a thread: its next place and the globals it leaves.\<close>

fun thread_step :: "'r env \<Rightarrow> 'r place \<Rightarrow> state \<Rightarrow> 'r place \<times> state" where
  "thread_step env (At_115 req) s =
     (if http_method req = ''POST'' \<and> form req ''refresh'' \<noteq> None
      then (In_kickoff Line_117 (runs s), s\<lparr>runs := Suc (runs s)\<rparr>)
      else if last_result s = None
      then (In_kickoff Line_139 (runs s), s\<lparr>runs := Suc (runs s)\<rparr>)
      else (At_141, s))"
| "thread_step env (In_kickoff site n) s =
     (case kickoff env n of
        Inl e \<Rightarrow>
          (case site of
             Line_117 \<Rightarrow> (Finished (Inr (Error_page (exn_msg e))), s)
           | Line_139 \<Rightarrow> (Finished (Inl e), s))
      | Inr result \<Rightarrow> (At_105 n result, s))"
| "thread_step env (At_105 n result) s =
     (At_106 n, s\<lparr>last_result := Some (str_of env result)\<rparr>)"
| "thread_step env (At_106 n) s = (At_107, s\<lparr>last_updated := Some (now env n)\<rparr>)"
| "thread_step env At_107 s = (At_144 (last_result s), s)"
| "thread_step env At_141 s = (At_144 (last_result s), s)"
| "thread_step env (At_144 result_str) s = (Finished (fst (render env result_str s)), s)"
| "thread_step env (Finished r) s = (Finished r, s)"

record 'r config =
  globals :: state
  threads :: "'r place list"

text \<open>
  The scheduler picks a thread; that thread takes one step. A schedule is the list
  of the threads picked, in order.
\<close>

definition step :: "'r env \<Rightarrow> nat \<Rightarrow> 'r config \<Rightarrow> 'r config" where
  "step env t cfg =
     (if t < length (threads cfg)
      then (case thread_step env (threads cfg ! t) (globals cfg) of
              (p, s) \<Rightarrow> \<lparr>globals = s, threads = (threads cfg)[t := p]\<rparr>)
      else cfg)"

definition execute :: "'r env \<Rightarrow> nat list \<Rightarrow> 'r config \<Rightarrow> 'r config" where
  "execute env schedule cfg = fold (step env) schedule cfg"

text \<open>The process after start-up, with one thread per request received.\<close>

definition start :: "request list \<Rightarrow> 'r config" where
  "start reqs = \<lparr>globals = initial, threads = map At_115 reqs\<rparr>"

fun in_kickoff :: "'r place \<Rightarrow> bool" where
  "in_kickoff (In_kickoff site n) = True"
| "in_kickoff p = False"

text \<open>The number of executions of the crew in flight.\<close>

definition in_flight :: "'r config \<Rightarrow> nat" where
  "in_flight cfg = length (filter in_kickoff (threads cfg))"

text \<open>A thread between the assignment of line 105 and that of line 106.\<close>

fun between_writes :: "'r place \<Rightarrow> bool" where
  "between_writes (At_106 n) = True"
| "between_writes p = False"

text \<open>
  A thread inside \<open>generate_recommendations\<close> that has made the assignment of
  line 105 and has not returned yet.
\<close>

fun past_105 :: "'r place \<Rightarrow> bool" where
  "past_105 (At_106 n) = True"
| "past_105 At_107 = True"
| "past_105 p = False"

text \<open>A thread that has not begun its request, or has finished it.\<close>

fun idle :: "'r place \<Rightarrow> bool" where
  "idle (At_115 req) = True"
| "idle (Finished r) = True"
| "idle p = False"

text \<open>
  A schedule handles the requests one at a time when a thread is only picked while
  every other thread is idle.
\<close>

fun one_at_a_time :: "'r env \<Rightarrow> nat list \<Rightarrow> 'r config \<Rightarrow> bool" where
  "one_at_a_time env [] cfg = True"
| "one_at_a_time env (t # ts) cfg =
     (list_all idle (take t (threads cfg) @ drop (Suc t) (threads cfg)) \<and>
      one_at_a_time env ts (step env t cfg))"

text \<open>
  How the two globals stand to the threads: a thread past line 105 has left
  \<open>last_result\<close> set; \<open>last_updated\<close> is set only if \<open>last_result\<close> is; and
  \<open>last_result\<close> is set with \<open>last_updated\<close> unset only while a thread is between
  the two assignments.
\<close>

definition coherent :: "'r config \<Rightarrow> bool" where
  "coherent cfg =
     ((list_ex past_105 (threads cfg) \<longrightarrow> last_result (globals cfg) \<noteq> None) \<and>
      (last_updated (globals cfg) \<noteq> None \<longrightarrow> last_result (globals cfg) \<noteq> None) \<and>
      (last_result (globals cfg) \<noteq> None \<and> last_updated (globals cfg) = None \<longrightarrow>
         list_ex between_writes (threads cfg)))"

text \<open>Requests handled by \<open>index\<close> one after the other: the globals they leave.\<close>

fun serve :: "'r env \<Rightarrow> request list \<Rightarrow> state \<Rightarrow> state" where
  "serve env [] s = s"
| "serve env (req # reqs) s = serve env reqs (snd (index env req s))"

subsection \<open>What the crew does with the declarations\<close>

text \<open>
  app.py declares the agents and tasks and hands them to \<open>Crew\<close>; the reasoning loop
  of an agent, the check of the task order and the sequential executor are code of
  the crewai library, which app.py only calls. The definitions of this subsection
  model them from the specification.
\<close>

text \<open>
  Modelled from the spec: the error taxonomy of section 7 (app.py defines no
  exception class). \<open>ToolError\<close> and \<open>ModelError\<close> carry their cause,
  \<open>UnknownToolError\<close> the name that was asked for.
\<close>

datatype error =
    ToolError string
  | ModelError string
  | UnknownToolError string
  | ReasoningLimitExceeded
  | DependencyOrderError

text \<open>
  Modelled from the spec: the \<open>Response\<close> of \<open>LanguageModelClient.generate\<close>
  (section 4.2), a final answer or the request to run a tool on a query.
\<close>

datatype response =
    FinalAnswer string
  | ToolCall string string

text \<open>
  Modelled from the spec: the reasoning loop of an agent (section 4.3), which in the
  source is inside crewai. \<open>generate\<close> is the language model client: on the running
  transcript and the names of the available tools it fails with a cause or returns a
  response. \<open>toolbox\<close> holds the agent's tools by name, each a \<open>run\<close> that fails with a
  cause or returns text. On a final answer the loop returns the text. On a tool call
  it looks the tool up (\<open>UnknownToolError\<close> if absent), runs it (\<open>ToolError\<close> if it
  fails), appends the result to the transcript and asks the model again. The first
  argument of type \<open>nat\<close> is the number of tool-call rounds still allowed; a tool call
  asked for when none is left fails with \<open>ReasoningLimitExceeded\<close>. Beside the
  outcome the loop returns the number of tool runs it made.
\<close>

fun reasoning_loop ::
  "(string \<Rightarrow> string list \<Rightarrow> string + response) \<Rightarrow> (string \<times> (string \<Rightarrow> string + string)) list \<Rightarrow>
     nat \<Rightarrow> string \<Rightarrow> (error + string) \<times> nat" where
  "reasoning_loop generate toolbox 0 transcript =
     (case generate transcript (map fst toolbox) of
        Inl cause \<Rightarrow> (Inl (ModelError cause), 0)
      | Inr (FinalAnswer answer) \<Rightarrow> (Inr answer, 0)
      | Inr (ToolCall name query) \<Rightarrow> (Inl ReasoningLimitExceeded, 0))"
| "reasoning_loop generate toolbox (Suc rounds) transcript =
     (case generate transcript (map fst toolbox) of
        Inl cause \<Rightarrow> (Inl (ModelError cause), 0)
      | Inr (FinalAnswer answer) \<Rightarrow> (Inr answer, 0)
      | Inr (ToolCall name query) \<Rightarrow>
          (case map_of toolbox name of
             None \<Rightarrow> (Inl (UnknownToolError name), 0)
           | Some run \<Rightarrow>
               (case run query of
                  Inl cause \<Rightarrow> (Inl (ToolError cause), 1)
                | Inr result \<Rightarrow>
                    (case reasoning_loop generate toolbox rounds (transcript @ result) of
                       (outcome, n) \<Rightarrow> (outcome, Suc n)))))"

text \<open>
  Modelled from the spec: the configuration-time check of section 4.4, which in the
  source is left to crewai. Going through the sequence, every task's dependency list
  (its \<open>context\<close> in app.py) may hold only tasks that appear earlier in the sequence;
  otherwise the pipeline is rejected with \<open>DependencyOrderError\<close>.
\<close>

fun check_order :: "task list \<Rightarrow> task list \<Rightarrow> error + unit" where
  "check_order earlier [] = Inr ()"
| "check_order earlier (t # ts) =
     (if list_all (\<lambda>d. d \<in> set earlier) (task_context t)
      then check_order (earlier @ [t]) ts
      else Inl DependencyOrderError)"

text \<open>
  Modelled from the spec: the record of a run of the pipeline, in the order of
  execution: each task executed, the context it was given and the output recorded
  for it. The output of a task is the first one recorded for it (write-once).
\<close>

type_synonym record_of_run = "(task \<times> string \<times> string) list"

text \<open>
  Modelled from the spec: the \<open>output\<close> field of a task (section 3), unset until the
  task has been executed.
\<close>

definition output_of :: "record_of_run \<Rightarrow> task \<Rightarrow> string option" where
  "output_of log d = map_option snd (map_of log d)"

text \<open>
  Modelled from the spec: step 1 of \<open>Pipeline.run\<close> (section 4.4). The context of a
  task is the concatenation, in the order of its dependency list, of the recorded
  output of every dependency, each prefixed by the description of its task. A
  dependency with no recorded output adds nothing (the order check rules this out).
\<close>

fun build_context :: "record_of_run \<Rightarrow> task list \<Rightarrow> string" where
  "build_context log [] = []"
| "build_context log (d # ds) =
     (case output_of log d of
        Some out \<Rightarrow> description d @ out @ build_context log ds
      | None \<Rightarrow> build_context log ds)"

text \<open>
  Modelled from the spec: steps 1 to 4 of \<open>Pipeline.run\<close> (section 4.4), which in the
  source is \<open>investment_crew.kickoff()\<close> inside crewai. \<open>perform t c\<close> is the agent of
  task \<open>t\<close> run on the task's description and expected output with context \<open>c\<close>: it
  fails or returns the text. The tasks run in sequence order; a failure ends the run
  at once and is returned with the failing task.
\<close>

fun run_tasks ::
  "(task \<Rightarrow> string \<Rightarrow> error + string) \<Rightarrow> record_of_run \<Rightarrow> task list \<Rightarrow>
     (error \<times> task) option \<times> record_of_run" where
  "run_tasks perform log [] = (None, log)"
| "run_tasks perform log (t # ts) =
     (case perform t (build_context log (task_context t)) of
        Inl e \<Rightarrow> (Some (e, t), log)
      | Inr out \<Rightarrow>
          run_tasks perform (log @ [(t, build_context log (task_context t), out)]) ts)"

text \<open>
  Modelled from the spec: \<open>PipelineResult\<close> (section 3), the text and the time of
  completion.
\<close>

record pipeline_result =
  result_text :: string
  completed_at :: string

text \<open>
  Modelled from the spec: the pipeline from configuration to result (section 4.4).
  The order is checked before anything runs. A run of every task yields the output
  of the last task with the time \<open>now\<close> (the spec leaves the result of a pipeline of
  no task open; the model gives it the empty text). Beside the outcome the record of
  the run is returned; a failure names the failing task, if it is one task's.
\<close>

definition run_pipeline ::
  "(task \<Rightarrow> string \<Rightarrow> error + string) \<Rightarrow> string \<Rightarrow> task list \<Rightarrow>
     (error \<times> task option + pipeline_result) \<times> record_of_run" where
  "run_pipeline perform now_text tasks =
     (case check_order [] tasks of
        Inl e \<Rightarrow> (Inl (e, None), [])
      | Inr ok \<Rightarrow>
          (case run_tasks perform [] tasks of
             (Some (e, t), log) \<Rightarrow> (Inl (e, Some t), log)
           | (None, log) \<Rightarrow>
               (Inr \<lparr>result_text = (case log of [] \<Rightarrow> [] | x # xs \<Rightarrow> snd (snd (last log))),
                     completed_at = now_text\<rparr>, log)))"

text \<open>
  Stubs: a language model that asks for the tool \<open>search\<close> on every call, the tool
  \<open>search\<close>, and agents that answer with the context they received followed by
  their role.
\<close>

definition always_tool_call :: "string \<Rightarrow> string list \<Rightarrow> string + response" where
  "always_tool_call transcript names = Inr (ToolCall ''search'' ''X'')"

definition search_tool :: "(string \<times> (string \<Rightarrow> string + string)) list" where
  "search_tool = [(''search'', \<lambda>query. Inr (''RESULT:'' @ query))]"

definition echo :: "task \<Rightarrow> string \<Rightarrow> error + string" where
  "echo t c = Inr (c @ ''<'' @ role (agent t) @ ''>'')"

subsection \<open>Concrete surroundings and requests\<close>

text \<open>
  A crew whose every run returns the text \<open># Top 10\<close>, and a crew whose every run
  raises \<open>RuntimeError("boom")\<close>; Markdown conversion is left as the identity.
\<close>

definition env_ok :: "string env" where
  "env_ok = \<lparr>kickoff = (\<lambda>n. Inr ''# Top 10''), str_of = (\<lambda>r. r),
              now = (\<lambda>n. ''2025-01-01 12:00:00''), markdown = (\<lambda>m. m)\<rparr>"

definition env_fail :: "string env" where
  "env_fail = \<lparr>kickoff = (\<lambda>n. Inl (Exn ''RuntimeError'' ''boom'')), str_of = (\<lambda>r. r),
                now = (\<lambda>n. ''2025-01-01 12:00:00''), markdown = (\<lambda>m. m)\<rparr>"

text \<open>
  A search call that raises \<open>TimeoutException("timed out")\<close> on every query, and one
  that returns a text on every query.
\<close>

definition search_times_out :: "string \<Rightarrow> exn + string" where
  "search_times_out query = Inl (Exn ''TimeoutException'' ''timed out'')"

definition search_finds :: "string \<Rightarrow> exn + string" where
  "search_finds query = Inr (''results for '' @ query)"

definition get_request :: request where
  "get_request = \<lparr>http_method = ''GET'', form = Map.empty\<rparr>"

definition post_refresh :: request where
  "post_refresh = \<lparr>http_method = ''POST'', form = [''refresh'' \<mapsto> []]\<rparr>"

definition cached :: state where
  "cached = \<lparr>last_result = Some ''old report'', last_updated = Some ''2024-12-31 08:00:00'', runs = 1\<rparr>"

section \<open>Sequential behaviour of generate_recommendations and index\<close>

lemma generate_recommendations_fail:
  "kickoff env (runs s) = Inl e \<Longrightarrow>
     generate_recommendations env s = (Inl e, s\<lparr>runs := Suc (runs s)\<rparr>)"
  by (simp add: generate_recommendations_def Let_def)

lemma generate_recommendations_ok:
  "kickoff env (runs s) = Inr result \<Longrightarrow>
     generate_recommendations env s =
       (Inr (Some (str_of env result)),
        s\<lparr>runs := Suc (runs s), last_result := Some (str_of env result),
          last_updated := Some (now env (runs s))\<rparr>)"
  by (simp add: generate_recommendations_def Let_def)

text \<open>
  An exception leaves \<open>index\<close> only when the crew raised it: \<open>result_str\<close> is never
  \<open>None\<close> where the page is rendered.
\<close>

lemma index_raises_only_crew_failure:
  "fst (index env req s) = Inl e \<Longrightarrow> kickoff env (runs s) = Inl e"
  by (cases "kickoff env (runs s)")
     (auto simp: index_def generate_recommendations_fail generate_recommendations_ok render_def
        split: if_splits option.splits)

text \<open>
  C1. When the crew's kickoff raises, \<open>generate_recommendations\<close> raises the same
  exception and leaves \<open>last_result\<close> and \<open>last_updated\<close> as they were; and whenever a
  call changes one of the two, the kickoff of that call returned a result. The same
  holds for a whole request: a failed refresh inside \<open>index\<close> leaves both as they were.
\<close>

theorem failed_run_keeps_cache:
  "(\<forall>e. kickoff env (runs s) = Inl e \<longrightarrow>
      fst (generate_recommendations env s) = Inl e \<and>
      last_result (snd (generate_recommendations env s)) = last_result s \<and>
      last_updated (snd (generate_recommendations env s)) = last_updated s \<and>
      last_result (snd (index env req s)) = last_result s \<and>
      last_updated (snd (index env req s)) = last_updated s) \<and>
   (last_result (snd (generate_recommendations env s)) \<noteq> last_result s \<or>
    last_updated (snd (generate_recommendations env s)) \<noteq> last_updated s
      \<longrightarrow> (\<exists>result. kickoff env (runs s) = Inr result))"
proof (intro conjI allI impI)
  fix e assume f: "kickoff env (runs s) = Inl e"
  note g = generate_recommendations_fail [OF f]
  show "fst (generate_recommendations env s) = Inl e" by (simp add: g)
  show "last_result (snd (generate_recommendations env s)) = last_result s" by (simp add: g)
  show "last_updated (snd (generate_recommendations env s)) = last_updated s" by (simp add: g)
  show "last_result (snd (index env req s)) = last_result s"
    by (simp add: index_def g render_def split: option.splits)
  show "last_updated (snd (index env req s)) = last_updated s"
    by (simp add: index_def g render_def split: option.splits)
next
  assume ch: "last_result (snd (generate_recommendations env s)) \<noteq> last_result s \<or>
    last_updated (snd (generate_recommendations env s)) \<noteq> last_updated s"
  show "\<exists>result. kickoff env (runs s) = Inr result"
  proof (cases "kickoff env (runs s)")
    case (Inl e)
    with ch show ?thesis by (simp add: generate_recommendations_fail)
  next
    case (Inr result)
    then show ?thesis by blast
  qed
qed

theorem failed_run_keeps_cache_witness:
  "fst (generate_recommendations env_fail cached) = Inl (Exn ''RuntimeError'' ''boom'') \<and>
   last_result (snd (generate_recommendations env_fail cached)) = Some ''old report'' \<and>
   last_updated (snd (generate_recommendations env_fail cached)) = Some ''2024-12-31 08:00:00'' \<and>
   last_result (snd (index env_fail post_refresh cached)) = Some ''old report'' \<and>
   last_updated (snd (index env_fail post_refresh cached)) = Some ''2024-12-31 08:00:00'' \<and>
   last_result (snd (generate_recommendations env_ok cached)) \<noteq> last_result cached \<and>
   kickoff env_ok (runs cached) = Inr ''# Top 10''"
proof -
  have f: "kickoff env_fail (runs cached) = Inl (Exn ''RuntimeError'' ''boom'')"
    by (simp add: env_fail_def)
  have c: "last_result (snd (generate_recommendations env_ok cached)) \<noteq> last_result cached"
    by (simp add: generate_recommendations_def env_ok_def cached_def)
  from failed_run_keeps_cache [of env_fail cached post_refresh] f
  have 1: "fst (generate_recommendations env_fail cached) = Inl (Exn ''RuntimeError'' ''boom'') \<and>
      last_result (snd (generate_recommendations env_fail cached)) = last_result cached \<and>
      last_updated (snd (generate_recommendations env_fail cached)) = last_updated cached \<and>
      last_result (snd (index env_fail post_refresh cached)) = last_result cached \<and>
      last_updated (snd (index env_fail post_refresh cached)) = last_updated cached"
    by blast
  from failed_run_keeps_cache [of env_ok cached post_refresh] c
  have 2: "\<exists>result. kickoff env_ok (runs cached) = Inr result" by blast
  have 3: "kickoff env_ok (runs cached) = Inr ''# Top 10''" by (simp add: env_ok_def)
  from 1 c 3 show ?thesis by (simp add: cached_def)
qed

text \<open>
  C8. When the crew's kickoff returns a result, \<open>generate_recommendations\<close> stores
  \<open>str(result)\<close> in \<open>last_result\<close>, stores the time read after the run in
  \<open>last_updated\<close>, and returns exactly the stored text.
\<close>

theorem successful_run_stores_result:
  "kickoff env (runs s) = Inr result \<Longrightarrow>
     last_result (snd (generate_recommendations env s)) = Some (str_of env result) \<and>
     last_updated (snd (generate_recommendations env s)) = Some (now env (runs s)) \<and>
     fst (generate_recommendations env s) = Inr (Some (str_of env result)) \<and>
     fst (generate_recommendations env s) = Inr (last_result (snd (generate_recommendations env s)))"
  by (simp add: generate_recommendations_ok)

theorem successful_run_stores_result_witness:
  "kickoff env_ok (runs initial) = Inr ''# Top 10'' \<and>
   last_result (snd (generate_recommendations env_ok initial)) = Some ''# Top 10'' \<and>
   last_updated (snd (generate_recommendations env_ok initial)) = Some ''2025-01-01 12:00:00'' \<and>
   fst (generate_recommendations env_ok initial) = Inr (Some ''# Top 10'')"
proof -
  have k: "kickoff env_ok (runs initial) = Inr ''# Top 10''"
    by (simp add: env_ok_def)
  from successful_run_stores_result [OF k] k show ?thesis
    by (simp add: env_ok_def initial_def)
qed

text \<open>
  C4. On a GET request with a cached result, \<open>index\<close> renders that result with the
  cached timestamp and changes nothing (the crew is not run). On a GET request with
  an empty cache it runs the crew exactly once, and when that run returns it renders
  the run's result with the run's timestamp.
\<close>

theorem index_get:
  "http_method req = ''GET'' \<Longrightarrow>
     (\<forall>r. last_result s = Some r \<longrightarrow>
        index env req s = (Inr (Report_page (markdown env r) (last_updated s)), s)) \<and>
     (last_result s = None \<longrightarrow>
        runs (snd (index env req s)) = Suc (runs s) \<and>
        (\<forall>result. kickoff env (runs s) = Inr result \<longrightarrow>
           fst (index env req s) =
             Inr (Report_page (markdown env (str_of env result)) (Some (now env (runs s))))))"
proof (intro conjI allI impI)
  assume g: "http_method req = ''GET''"
  { fix r assume "last_result s = Some r"
    with g show "index env req s = (Inr (Report_page (markdown env r) (last_updated s)), s)"
      by (simp add: index_def render_def) }
  { assume n: "last_result s = None"
    show "runs (snd (index env req s)) = Suc (runs s)"
    proof (cases "kickoff env (runs s)")
      case (Inl e)
      with g n show ?thesis by (simp add: index_def generate_recommendations_fail)
    next
      case (Inr result)
      with g n show ?thesis
        by (simp add: index_def generate_recommendations_ok render_def)
    qed
    fix result assume "kickoff env (runs s) = Inr result"
    with g n show "fst (index env req s) =
        Inr (Report_page (markdown env (str_of env result)) (Some (now env (runs s))))"
      by (simp add: index_def generate_recommendations_ok render_def) }
qed

theorem index_get_witness:
  "http_method get_request = ''GET'' \<and>
   index env_ok get_request cached =
     (Inr (Report_page ''old report'' (Some ''2024-12-31 08:00:00'')), cached) \<and>
   last_result initial = None \<and>
   runs (snd (index env_ok get_request initial)) = 1 \<and>
   fst (index env_ok get_request initial) =
     Inr (Report_page ''# Top 10'' (Some ''2025-01-01 12:00:00''))"
proof -
  have g: "http_method get_request = ''GET''" by (simp add: get_request_def)
  have c: "last_result cached = Some ''old report''" by (simp add: cached_def)
  have n: "last_result initial = None" by (simp add: initial_def)
  have k: "kickoff env_ok (runs initial) = Inr ''# Top 10''" by (simp add: env_ok_def)
  from index_get [OF g, of cached env_ok] c
  have 1: "index env_ok get_request cached =
      (Inr (Report_page (markdown env_ok ''old report'') (last_updated cached)), cached)"
    by blast
  from index_get [OF g, of initial env_ok] n k
  have 2: "runs (snd (index env_ok get_request initial)) = Suc (runs initial) \<and>
      fst (index env_ok get_request initial) =
        Inr (Report_page (markdown env_ok (str_of env_ok ''# Top 10''))
              (Some (now env_ok (runs initial))))"
    by blast
  from g n 1 2 show ?thesis
    by (simp add: env_ok_def cached_def initial_def)
qed

text \<open>
  C3, as the code has it. On a POST request that carries \<open>refresh\<close>, a refresh whose
  kickoff raises \<open>e\<close> makes \<open>index\<close> return (not raise) the error page, whose only
  content taken from the failure is the message \<open>str(e)\<close>; the cache is unchanged.
\<close>

theorem index_post_refresh_failure:
  "http_method req = ''POST'' \<Longrightarrow> form req ''refresh'' \<noteq> None \<Longrightarrow>
   kickoff env (runs s) = Inl e \<Longrightarrow>
     index env req s = (Inr (Error_page (exn_msg e)), s\<lparr>runs := Suc (runs s)\<rparr>)"
  by (simp add: index_def generate_recommendations_fail)

theorem index_post_refresh_failure_witness:
  "http_method post_refresh = ''POST'' \<and> form post_refresh ''refresh'' \<noteq> None \<and>
   kickoff env_fail (runs cached) = Inl (Exn ''RuntimeError'' ''boom'') \<and>
   index env_fail post_refresh cached = (Inr (Error_page ''boom''), cached\<lparr>runs := 2\<rparr>)"
proof -
  have m: "http_method post_refresh = ''POST''" by (simp add: post_refresh_def)
  have f: "form post_refresh ''refresh'' \<noteq> None" by (simp add: post_refresh_def)
  have k: "kickoff env_fail (runs cached) = Inl (Exn ''RuntimeError'' ''boom'')"
    by (simp add: env_fail_def)
  from index_post_refresh_failure [OF m f k] m f k show ?thesis
    by (simp add: cached_def)
qed

text \<open>
  C3, as stated, fails twice. With a crew that raises \<open>RuntimeError("boom")\<close>:
  a GET request on the empty cache triggers the refresh and the exception leaves
  \<open>index\<close> (no page is rendered by the view); and on a POST refresh the error page
  carries \<open>boom\<close> only, which contains the description of none of the three tasks.
\<close>

theorem failure_report_counterexample:
  "index env_fail get_request initial = (Inl (Exn ''RuntimeError'' ''boom''), initial\<lparr>runs := 1\<rparr>) \<and>
   index env_fail post_refresh initial = (Inr (Error_page ''boom''), initial\<lparr>runs := 1\<rparr>) \<and>
   \<not> sublist (description market_research_task) ''boom'' \<and>
   \<not> sublist (description stock_selection_task) ''boom'' \<and>
   \<not> sublist (description investment_report_task) ''boom''"
proof (intro conjI)
  show "index env_fail get_request initial =
      (Inl (Exn ''RuntimeError'' ''boom''), initial\<lparr>runs := 1\<rparr>)"
    by (simp add: index_def generate_recommendations_def env_fail_def get_request_def initial_def)
  show "index env_fail post_refresh initial =
      (Inr (Error_page ''boom''), initial\<lparr>runs := 1\<rparr>)"
    by (simp add: index_def generate_recommendations_def env_fail_def post_refresh_def initial_def)
  show "\<not> sublist (description market_research_task) ''boom''"
    using sublist_length_le [of "description market_research_task" "''boom''"]
    by (auto simp add: market_research_task_def)
  show "\<not> sublist (description stock_selection_task) ''boom''"
    using sublist_length_le [of "description stock_selection_task" "''boom''"]
    by (auto simp add: stock_selection_task_def)
  show "\<not> sublist (description investment_report_task) ''boom''"
    using sublist_length_le [of "description investment_report_task" "''boom''"]
    by (auto simp add: investment_report_task_def)
qed

text \<open>
  C9, as the code has it. \<open>_run\<close> passes the search call through: when the search
  call raises, \<open>_run\<close> raises that same exception, unwrapped (so it returns no text,
  in particular not the empty text); when the search call returns a text, \<open>_run\<close>
  returns that text unchanged.
\<close>

theorem tool_run_passes_through:
  "(\<forall>e. invoke query = Inl e \<longrightarrow>
      MyCustomDuckDuckGoTool_run invoke query = Inl e \<and>
      MyCustomDuckDuckGoTool_run invoke query \<noteq> Inr []) \<and>
   (\<forall>response. invoke query = Inr response \<longrightarrow>
      MyCustomDuckDuckGoTool_run invoke query = Inr response)"
  by (simp add: MyCustomDuckDuckGoTool_run_def)

theorem tool_run_passes_through_witness:
  "search_times_out ''nvda'' = Inl (Exn ''TimeoutException'' ''timed out'') \<and>
   MyCustomDuckDuckGoTool_run search_times_out ''nvda'' =
     Inl (Exn ''TimeoutException'' ''timed out'') \<and>
   search_finds ''nvda'' = Inr ''results for nvda'' \<and>
   MyCustomDuckDuckGoTool_run search_finds ''nvda'' = Inr ''results for nvda''"
proof -
  have t: "search_times_out ''nvda'' = Inl (Exn ''TimeoutException'' ''timed out'')"
    by (simp add: search_times_out_def)
  have f: "search_finds ''nvda'' = Inr ''results for nvda''"
    by (simp add: search_finds_def)
  from tool_run_passes_through [of search_times_out "''nvda''"] t
  have 1: "MyCustomDuckDuckGoTool_run search_times_out ''nvda'' =
      Inl (Exn ''TimeoutException'' ''timed out'')" by blast
  from tool_run_passes_through [of search_finds "''nvda''"] f
  have 2: "MyCustomDuckDuckGoTool_run search_finds ''nvda'' = Inr ''results for nvda''"
    by blast
  from t f 1 2 show ?thesis by simp
qed

text \<open>
  C9, as stated, fails on the class of the exception: app.py defines no \<open>ToolError\<close>
  and \<open>_run\<close> catches and wraps nothing. When the search call times out with a
  \<open>TimeoutException\<close>, that exception leaves \<open>_run\<close>, and its class is not
  \<open>ToolError\<close>.
\<close>

theorem tool_error_counterexample:
  "MyCustomDuckDuckGoTool_run search_times_out ''nvda'' =
     Inl (Exn ''TimeoutException'' ''timed out'') \<and>
   exn_class (Exn ''TimeoutException'' ''timed out'') \<noteq> ''ToolError''"
  by (simp add: MyCustomDuckDuckGoTool_run_def search_times_out_def)

section \<open>Requests served concurrently: the two globals and the executions in flight\<close>

lemma list_ex_update_cases:
  "list_ex P (xs[t := p]) \<Longrightarrow> P p \<or> list_ex P xs"
  using set_update_subset_insert [of xs t p] by (auto simp: list_ex_iff)

lemma list_ex_update_keep:
  assumes "list_ex P xs" "\<not> P (xs ! t)"
  shows "list_ex P (xs[t := p])"
proof -
  from assms(1) obtain j where j: "j < length xs" "P (xs ! j)"
    by (auto simp: list_ex_iff in_set_conv_nth)
  with assms(2) have "j \<noteq> t" by auto
  with j have a: "j < length (xs[t := p])" and b: "P (xs[t := p] ! j)" by simp_all
  from nth_mem [OF a] b show ?thesis by (auto simp: list_ex_iff)
qed

lemma list_ex_update_self:
  "t < length xs \<Longrightarrow> P p \<Longrightarrow> list_ex P (xs[t := p])"
  by (auto simp: list_ex_iff set_update_memI)

lemma coherent_step: "coherent cfg \<Longrightarrow> coherent (step env t cfg)"
proof (cases "t < length (threads cfg)")
  case False
  assume "coherent cfg"
  with False show ?thesis by (simp add: step_def)
next
  case True
  assume c: "coherent cfg"
  have mem: "list_ex past_105 (threads cfg) \<or> \<not> past_105 (threads cfg ! t)"
    using True by (auto simp: list_ex_iff)
  show ?thesis
  proof (cases "threads cfg ! t")
    case (At_115 req)
    with c True show ?thesis
      by (auto simp: coherent_def step_def dest!: list_ex_update_cases intro: list_ex_update_keep)
  next
    case (In_kickoff site n)
    with c True show ?thesis
      by (auto simp: coherent_def step_def split: sum.splits call_site.splits
            dest!: list_ex_update_cases intro: list_ex_update_keep)
  next
    case (At_105 n result)
    with c True show ?thesis
      by (auto simp: coherent_def step_def intro: list_ex_update_self)
  next
    case (At_106 n)
    with c True mem show ?thesis
      by (auto simp: coherent_def step_def)
  next
    case At_107
    with c True show ?thesis
      by (auto simp: coherent_def step_def dest!: list_ex_update_cases intro: list_ex_update_keep)
  next
    case At_141
    with c True show ?thesis
      by (auto simp: coherent_def step_def dest!: list_ex_update_cases intro: list_ex_update_keep)
  next
    case (At_144 r)
    with c True show ?thesis
      by (auto simp: coherent_def step_def dest!: list_ex_update_cases intro: list_ex_update_keep)
  next
    case (Finished r)
    with c True show ?thesis
      by (auto simp: coherent_def step_def dest!: list_ex_update_cases intro: list_ex_update_keep)
  qed
qed


lemma start_not_past_105: "\<not> list_ex past_105 (map At_115 reqs)"
  by (induction reqs) simp_all

lemma coherent_start: "coherent (start reqs)"
  by (simp add: coherent_def start_def initial_def start_not_past_105)

lemma coherent_execute: "coherent cfg \<Longrightarrow> coherent (execute env sched cfg)"
  unfolding execute_def by (induction sched arbitrary: cfg) (simp_all add: coherent_step)

lemma thread_step_keeps_result:
  "last_result s \<noteq> None \<Longrightarrow> last_result (snd (thread_step env p s)) \<noteq> None"
  by (cases p) (auto split: sum.splits call_site.splits)

lemma thread_step_keeps_updated:
  "last_updated s \<noteq> None \<Longrightarrow> last_updated (snd (thread_step env p s)) \<noteq> None"
  by (cases p) (auto split: sum.splits call_site.splits)

lemma step_globals:
  "globals (step env t cfg) =
     (if t < length (threads cfg) then snd (thread_step env (threads cfg ! t) (globals cfg))
      else globals cfg)"
  by (simp add: step_def split: prod.splits)

lemma step_keeps_result:
  "last_result (globals cfg) \<noteq> None \<Longrightarrow> last_result (globals (step env t cfg)) \<noteq> None"
  using thread_step_keeps_result [of "globals cfg" env "threads cfg ! t"]
  by (simp add: step_globals)

lemma step_keeps_updated:
  "last_updated (globals cfg) \<noteq> None \<Longrightarrow> last_updated (globals (step env t cfg)) \<noteq> None"
  using thread_step_keeps_updated [of "globals cfg" env "threads cfg ! t"]
  by (simp add: step_globals)

lemma execute_keeps_result:
  "last_result (globals cfg) \<noteq> None \<Longrightarrow> last_result (globals (execute env sched cfg)) \<noteq> None"
proof (induction sched arbitrary: cfg)
  case Nil
  then show ?case by (simp add: execute_def)
next
  case (Cons t ts)
  from Cons.IH [OF step_keeps_result [OF Cons.prems]]
  show ?case by (simp add: execute_def)
qed

lemma execute_keeps_updated:
  "last_updated (globals cfg) \<noteq> None \<Longrightarrow> last_updated (globals (execute env sched cfg)) \<noteq> None"
proof (induction sched arbitrary: cfg)
  case Nil
  then show ?case by (simp add: execute_def)
next
  case (Cons t ts)
  from Cons.IH [OF step_keeps_updated [OF Cons.prems]]
  show ?case by (simp add: execute_def)
qed

lemma index_keeps_pairing:
  "(last_result s = None) = (last_updated s = None) \<Longrightarrow>
     (last_result (snd (index env req s)) = None) = (last_updated (snd (index env req s)) = None)"
  by (cases "kickoff env (runs s)")
     (auto simp: index_def generate_recommendations_fail generate_recommendations_ok render_def)

lemma serve_keeps_pairing:
  "(last_result s = None) = (last_updated s = None) \<Longrightarrow>
     (last_result (serve env reqs s) = None) = (last_updated (serve env reqs s) = None)"
  by (induction reqs arbitrary: s) (simp_all add: index_keeps_pairing)

lemma idle_filter_in_kickoff: "list_all idle ps \<Longrightarrow> filter in_kickoff ps = []"
proof (induction ps)
  case Nil
  then show ?case by simp
next
  case (Cons p ps)
  then show ?case by (cases p) simp_all
qed

lemma in_flight_after_step:
  assumes "list_all idle (take t (threads cfg) @ drop (Suc t) (threads cfg))"
  shows "in_flight (step env t cfg) \<le> 1"
proof (cases "t < length (threads cfg)")
  case True
  from assms have a: "filter in_kickoff (take t (threads cfg)) = []"
    and b: "filter in_kickoff (drop (Suc t) (threads cfg)) = []"
    by (simp_all add: idle_filter_in_kickoff)
  obtain p s where ps: "thread_step env (threads cfg ! t) (globals cfg) = (p, s)"
    by (cases "thread_step env (threads cfg ! t) (globals cfg)")
  with True have "threads (step env t cfg) =
      take t (threads cfg) @ p # drop (Suc t) (threads cfg)"
    by (simp add: step_def upd_conv_take_nth_drop)
  with a b show ?thesis by (simp add: in_flight_def)
next
  case False
  with assms have "filter in_kickoff (threads cfg) = []"
    by (simp add: idle_filter_in_kickoff)
  with False show ?thesis by (simp add: step_def in_flight_def)
qed

lemma one_at_a_time_in_flight:
  "one_at_a_time env sched cfg \<Longrightarrow> in_flight cfg \<le> 1 \<Longrightarrow>
     in_flight (execute env sched cfg) \<le> 1"
proof (induction sched arbitrary: cfg)
  case Nil
  then show ?case by (simp add: execute_def)
next
  case (Cons t ts)
  from Cons.prems(1)
  have "list_all idle (take t (threads cfg) @ drop (Suc t) (threads cfg))" by simp
  then have i: "in_flight (step env t cfg) \<le> 1" by (rule in_flight_after_step)
  from Cons.prems(1) have "one_at_a_time env ts (step env t cfg)" by simp
  from Cons.IH [OF this i] show ?case by (simp add: execute_def)
qed

lemma one_at_a_time_take:
  "one_at_a_time env sched cfg \<Longrightarrow> one_at_a_time env (take k sched) cfg"
proof (induction sched arbitrary: k cfg)
  case Nil
  then show ?case by simp
next
  case (Cons t ts)
  then show ?case by (cases k) simp_all
qed

lemma in_flight_start: "in_flight (start reqs) = 0"
  by (induction reqs) (simp_all add: in_flight_def start_def)

lemma step_thread:
  "t < length (threads cfg) \<Longrightarrow>
     step env t cfg =
       \<lparr>globals = snd (thread_step env (threads cfg ! t) (globals cfg)),
        threads = (threads cfg)[t := fst (thread_step env (threads cfg ! t) (globals cfg))]\<rparr>"
  by (simp add: step_def split: prod.splits)

lemma alone_is_index:
  assumes t: "t < length (threads cfg)" and p: "threads cfg ! t = At_115 req"
  shows "execute env [t, t, t, t, t, t] cfg =
     \<lparr>globals = snd (index env req (globals cfg)),
      threads = (threads cfg)[t := Finished (fst (index env req (globals cfg)))]\<rparr>"
proof (cases "kickoff env (runs (globals cfg))")
  case (Inl e)
  with t p show ?thesis
    by (auto simp add: execute_def step_thread index_def generate_recommendations_fail render_def
          split: option.splits)
next
  case (Inr result)
  with t p show ?thesis
    by (auto simp add: execute_def step_thread index_def generate_recommendations_ok render_def
          split: option.splits)
qed

text \<open>
  C10, as the code has it. In every configuration that any number of requests can
  reach under any schedule: \<open>last_updated\<close> is set only if \<open>last_result\<close> is; and
  unless some call of \<open>generate_recommendations\<close> stands between its assignment of
  \<open>last_result\<close> (line 105) and its assignment of \<open>last_updated\<close> (line 106),
  \<open>last_result\<close> is \<open>None\<close> exactly when \<open>last_updated\<close> is. Neither global, once set, is
  ever \<open>None\<close> again. In particular the two are \<open>None\<close> together after every sequence
  of requests handled one after the other.
\<close>

theorem cache_fields_paired:
  "(last_updated (globals (execute env sched (start reqs))) \<noteq> None \<longrightarrow>
      last_result (globals (execute env sched (start reqs))) \<noteq> None) \<and>
   (\<not> list_ex between_writes (threads (execute env sched (start reqs))) \<longrightarrow>
      (last_result (globals (execute env sched (start reqs))) = None) =
      (last_updated (globals (execute env sched (start reqs))) = None)) \<and>
   (last_result (globals cfg) \<noteq> None \<longrightarrow>
      last_result (globals (execute env sched cfg)) \<noteq> None) \<and>
   (last_updated (globals cfg) \<noteq> None \<longrightarrow>
      last_updated (globals (execute env sched cfg)) \<noteq> None) \<and>
   ((last_result (serve env reqs initial) = None) =
    (last_updated (serve env reqs initial) = None))"
proof -
  have c: "coherent (execute env sched (start reqs))"
    by (rule coherent_execute) (rule coherent_start)
  have s: "(last_result (serve env reqs initial) = None) =
      (last_updated (serve env reqs initial) = None)"
    by (rule serve_keeps_pairing) (simp add: initial_def)
  from c s show ?thesis
    unfolding coherent_def using execute_keeps_result execute_keeps_updated by blast
qed

theorem cache_fields_paired_witness:
  "last_updated (globals (execute env_ok [0, 0, 0, 0] (start [post_refresh]))) \<noteq> None \<and>
   last_result (globals (execute env_ok [0, 0, 0, 0] (start [post_refresh]))) \<noteq> None \<and>
   \<not> list_ex between_writes (threads (execute env_ok [0, 0, 0, 0] (start [post_refresh]))) \<and>
   last_result cached \<noteq> None \<and> last_updated cached \<noteq> None \<and>
   last_result (globals (execute env_ok [0, 0, 0, 0]
      \<lparr>globals = cached, threads = [At_115 post_refresh]\<rparr>)) \<noteq> None \<and>
   last_updated (globals (execute env_ok [0, 0, 0, 0]
      \<lparr>globals = cached, threads = [At_115 post_refresh]\<rparr>)) \<noteq> None"
proof -
  have e: "execute env_ok [0, 0, 0, 0] (start [post_refresh]) =
      \<lparr>globals = \<lparr>last_result = Some ''# Top 10'',
                  last_updated = Some ''2025-01-01 12:00:00'', runs = 1\<rparr>,
       threads = [At_107]\<rparr>"
    by (simp add: execute_def step_def start_def initial_def env_ok_def post_refresh_def)
  have u: "last_updated (globals (execute env_ok [0, 0, 0, 0] (start [post_refresh]))) \<noteq> None"
    and b: "\<not> list_ex between_writes (threads (execute env_ok [0, 0, 0, 0] (start [post_refresh])))"
    by (simp_all add: e)
  have r: "last_result (globals \<lparr>globals = cached, threads = [At_115 post_refresh]\<rparr>) \<noteq> None"
    and d: "last_updated (globals \<lparr>globals = cached, threads = [At_115 post_refresh]\<rparr>) \<noteq> None"
    by (simp_all add: cached_def)
  from cache_fields_paired [of env_ok "[0, 0, 0, 0]" "[post_refresh]"
      "\<lparr>globals = cached, threads = [At_115 post_refresh]\<rparr>"] u b r d
  show ?thesis by (simp add: cached_def)
qed

text \<open>
  C10, as stated, fails between two lines of the first successful run: a POST
  refresh on the fresh process, stopped after line 105 and before line 106, has
  \<open>last_result\<close> set while \<open>last_updated\<close> is still \<open>None\<close>.
\<close>

theorem cache_fields_counterexample:
  "last_result (globals (execute env_ok [0, 0, 0] (start [post_refresh]))) = Some ''# Top 10'' \<and>
   last_updated (globals (execute env_ok [0, 0, 0] (start [post_refresh]))) = None \<and>
   threads (execute env_ok [0, 0, 0] (start [post_refresh])) = [At_106 0]"
  by (simp add: execute_def step_def start_def initial_def env_ok_def post_refresh_def)

text \<open>
  C2, as the code has it. app.py takes no lock. When the requests are handled one at
  a time (a request takes a step only while every other request has not begun or has
  finished), at most one execution of the crew is in flight at every moment of the
  schedule; and a request that takes its six steps without interleaving leaves the
  globals and returns the response that \<open>index\<close> gives in one piece, so the page it
  renders shows a result together with the timestamp stored with it.
\<close>

theorem requests_one_at_a_time:
  "(one_at_a_time env sched (start reqs) \<longrightarrow>
      in_flight (execute env (take k sched) (start reqs)) \<le> 1) \<and>
   (t < length (threads cfg) \<and> threads cfg ! t = At_115 req \<longrightarrow>
      execute env [t, t, t, t, t, t] cfg =
        \<lparr>globals = snd (index env req (globals cfg)),
         threads = (threads cfg)[t := Finished (fst (index env req (globals cfg)))]\<rparr>)"
proof (intro conjI impI)
  assume "one_at_a_time env sched (start reqs)"
  then have "one_at_a_time env (take k sched) (start reqs)"
    by (rule one_at_a_time_take)
  then show "in_flight (execute env (take k sched) (start reqs)) \<le> 1"
    by (rule one_at_a_time_in_flight) (simp add: in_flight_start)
next
  assume "t < length (threads cfg) \<and> threads cfg ! t = At_115 req"
  then show "execute env [t, t, t, t, t, t] cfg =
      \<lparr>globals = snd (index env req (globals cfg)),
       threads = (threads cfg)[t := Finished (fst (index env req (globals cfg)))]\<rparr>"
    by (simp add: alone_is_index)
qed

theorem requests_one_at_a_time_witness:
  "one_at_a_time env_ok [0, 0, 0, 0, 0, 0, 1, 1, 1] (start [post_refresh, get_request]) \<and>
   in_flight (execute env_ok [0] (start [post_refresh, get_request])) = 1 \<and>
   execute env_ok [0, 0, 0, 0, 0, 0] (start [post_refresh, get_request]) =
     \<lparr>globals = \<lparr>last_result = Some ''# Top 10'',
                 last_updated = Some ''2025-01-01 12:00:00'', runs = 1\<rparr>,
      threads = [Finished (Inr (Report_page ''# Top 10'' (Some ''2025-01-01 12:00:00''))),
                 At_115 get_request]\<rparr>"
proof -
  have o: "one_at_a_time env_ok [0, 0, 0, 0, 0, 0, 1, 1, 1] (start [post_refresh, get_request])"
    by (simp add: step_def start_def initial_def env_ok_def post_refresh_def get_request_def
          render_def)
  have f: "in_flight (execute env_ok [0] (start [post_refresh, get_request])) = 1"
    by (simp add: in_flight_def execute_def step_def start_def initial_def env_ok_def
          post_refresh_def)
  have l: "0 < length (threads (start [post_refresh, get_request] :: string config)) \<and>
      threads (start [post_refresh, get_request] :: string config) ! 0 = At_115 post_refresh"
    by (simp add: start_def)
  have i: "index env_ok post_refresh initial =
      (Inr (Report_page ''# Top 10'' (Some ''2025-01-01 12:00:00'')),
       \<lparr>last_result = Some ''# Top 10'', last_updated = Some ''2025-01-01 12:00:00'', runs = 1\<rparr>)"
    by (simp add: index_def generate_recommendations_def render_def env_ok_def
          post_refresh_def initial_def)
  from requests_one_at_a_time [of env_ok "[0, 0, 0, 0, 0, 0, 1, 1, 1]"
      "[post_refresh, get_request]" 1 0 "start [post_refresh, get_request]" post_refresh] o l
  have "in_flight (execute env_ok [0] (start [post_refresh, get_request])) \<le> 1 \<and>
      execute env_ok [0, 0, 0, 0, 0, 0] (start [post_refresh, get_request]) =
        \<lparr>globals = snd (index env_ok post_refresh (globals (start [post_refresh, get_request] :: string config))),
         threads = (threads (start [post_refresh, get_request]))
           [0 := Finished (fst (index env_ok post_refresh (globals (start [post_refresh, get_request] :: string config))))]\<rparr>"
    by simp
  with o f i show ?thesis by (simp add: start_def)
qed

text \<open>
  C2, as stated, fails. Two POST refresh requests that each take their first step
  are both inside \<open>investment_crew.kickoff()\<close>: two executions are in flight. And a
  GET request served while a refresh stands between line 105 and line 106 renders
  the new result with no timestamp.
\<close>

theorem no_lock_counterexample:
  "in_flight (execute env_ok [0, 1] (start [post_refresh, post_refresh])) = 2 \<and>
   threads (execute env_ok [0, 0, 0, 1, 1, 1] (start [post_refresh, get_request])) =
     [At_106 0, Finished (Inr (Report_page ''# Top 10'' None))]"
  by (simp add: in_flight_def execute_def step_def start_def initial_def env_ok_def
        post_refresh_def get_request_def render_def)

section \<open>The reasoning loop, the order check and the sequential executor of the specification\<close>

lemma reasoning_loop_bound: "snd (reasoning_loop generate toolbox n transcript) \<le> n"
proof (induction n arbitrary: transcript)
  case 0
  show ?case by (simp split: sum.splits response.splits)
next
  case (Suc n)
  show ?case
  proof (cases "generate transcript (map fst toolbox)")
    case (Inl cause)
    then show ?thesis by simp
  next
    case (Inr resp)
    show ?thesis
    proof (cases resp)
      case (FinalAnswer answer)
      with Inr show ?thesis by simp
    next
      case (ToolCall name query)
      show ?thesis
      proof (cases "map_of toolbox name")
        case None
        with Inr ToolCall show ?thesis by simp
      next
        case (Some run)
        show ?thesis
        proof (cases "run query")
          case (Inl cause)
          with Inr ToolCall Some show ?thesis by simp
        next
          case r: (Inr result)
          from Suc.IH [of "transcript @ result"] Inr ToolCall Some r
          show ?thesis by (auto split: prod.splits)
        qed
      qed
    qed
  qed
qed

lemma reasoning_loop_no_answer:
  assumes "\<forall>p ns. \<exists>name query. generate p ns = Inr (ToolCall name query)"
  shows "\<exists>e. fst (reasoning_loop generate toolbox n transcript) = Inl e"
proof (induction n arbitrary: transcript)
  case 0
  from assms obtain name query
    where "generate transcript (map fst toolbox) = Inr (ToolCall name query)" by blast
  then show ?case by simp
next
  case (Suc n)
  from assms obtain name query
    where g: "generate transcript (map fst toolbox) = Inr (ToolCall name query)" by blast
  show ?case
  proof (cases "map_of toolbox name")
    case None
    with g show ?thesis by simp
  next
    case (Some run)
    show ?thesis
    proof (cases "run query")
      case (Inl cause)
      with g Some show ?thesis by simp
    next
      case (Inr result)
      from Suc.IH [of "transcript @ result"] g Some Inr
      show ?thesis by (auto split: prod.splits)
    qed
  qed
qed

lemma reasoning_loop_limit:
  assumes "\<forall>p. \<exists>name query run result.
      generate p (map fst toolbox) = Inr (ToolCall name query) \<and>
      map_of toolbox name = Some run \<and> run query = Inr result"
  shows "reasoning_loop generate toolbox n transcript = (Inl ReasoningLimitExceeded, n)"
proof (induction n arbitrary: transcript)
  case 0
  from assms obtain name query
    where "generate transcript (map fst toolbox) = Inr (ToolCall name query)" by blast
  then show ?case by simp
next
  case (Suc n)
  from assms obtain name query run result
    where "generate transcript (map fst toolbox) = Inr (ToolCall name query)"
      "map_of toolbox name = Some run" "run query = Inr result" by blast
  with Suc.IH [of "transcript @ result"] show ?case by simp
qed

lemma check_order_iff:
  "check_order earlier ts = Inr () \<longleftrightarrow>
     (\<forall>i<length ts. set (task_context (ts ! i)) \<subseteq> set earlier \<union> set (take i ts))"
proof (induction ts arbitrary: earlier)
  case Nil
  then show ?case by simp
next
  case (Cons t ts)
  show ?case
  proof (cases "set (task_context t) \<subseteq> set earlier")
    case False
    then have "\<not> (\<forall>i<length (t # ts). set (task_context ((t # ts) ! i)) \<subseteq> set earlier \<union> set (take i (t # ts)))"
      by (auto intro!: exI [of _ 0])
    with False show ?thesis by (auto simp: list_all_iff)
  next
    case True
    have "(\<forall>i<length (t # ts). set (task_context ((t # ts) ! i)) \<subseteq> set earlier \<union> set (take i (t # ts)))
        \<longleftrightarrow> (\<forall>i<length ts. set (task_context (ts ! i)) \<subseteq> set (earlier @ [t]) \<union> set (take i ts))"
      using True by (simp add: All_less_Suc2 Un_assoc)
    with True Cons.IH [of "earlier @ [t]"] show ?thesis by (auto simp: list_all_iff)
  qed
qed

lemma check_order_cases: "check_order earlier ts = Inr () \<or> check_order earlier ts = Inl DependencyOrderError"
  by (induction ts arbitrary: earlier) auto


lemma run_tasks_order:
  "run_tasks perform log ts = (r, log') \<Longrightarrow>
     \<exists>k\<le>length ts. map fst log' = map fst log @ take k ts \<and> (r = None \<longrightarrow> k = length ts)"
proof (induction ts arbitrary: log)
  case Nil
  then show ?case by auto
next
  case (Cons t ts)
  show ?case
  proof (cases "perform t (build_context log (task_context t))")
    case (Inl e)
    with Cons.prems have "log' = log" "r \<noteq> None" by auto
    then show ?thesis by (intro exI [of _ 0]) simp
  next
    case (Inr out)
    with Cons.prems
    have "run_tasks perform (log @ [(t, build_context log (task_context t), out)]) ts = (r, log')"
      by simp
    from Cons.IH [OF this] obtain k where k: "k \<le> length ts"
      "map fst log' = map fst (log @ [(t, build_context log (task_context t), out)]) @ take k ts"
      "r = None \<longrightarrow> k = length ts" by blast
    then show ?thesis by (intro exI [of _ "Suc k"]) simp
  qed
qed

lemma run_tasks_contexts:
  assumes "\<forall>i<length log. fst (snd (log ! i)) = build_context (take i log) (task_context (fst (log ! i)))"
    and "run_tasks perform log ts = (r, log')"
  shows "\<forall>i<length log'. fst (snd (log' ! i)) = build_context (take i log') (task_context (fst (log' ! i)))"
  using assms
proof (induction ts arbitrary: log)
  case Nil
  then show ?case by simp
next
  case (Cons t ts)
  show ?case
  proof (cases "perform t (build_context log (task_context t))")
    case (Inl e)
    with Cons.prems show ?thesis by auto
  next
    case (Inr out)
    let ?log = "log @ [(t, build_context log (task_context t), out)]"
    from Inr Cons.prems(2) have run: "run_tasks perform ?log ts = (r, log')" by simp
    have "\<forall>i<length ?log. fst (snd (?log ! i)) =
        build_context (take i ?log) (task_context (fst (?log ! i)))"
    proof (intro allI impI)
      fix i assume "i < length ?log"
      then consider "i < length log" | "i = length log" by force
      then show "fst (snd (?log ! i)) = build_context (take i ?log) (task_context (fst (?log ! i)))"
      proof cases
        case 1
        with Cons.prems(1) show ?thesis by (simp add: nth_append)
      next
        case 2
        then show ?thesis by simp
      qed
    qed
    from Cons.IH [OF this run] show ?thesis .
  qed
qed

lemma output_of_take:
  assumes "d \<in> fst ` set (take i log)"
  shows "output_of (take i log) d = output_of log d"
proof -
  from assms have d: "d \<in> dom (map_of (take i log))" by (simp add: dom_map_of_conv_image_fst)
  have "map_of log = map_of (take i log @ drop i log)" by simp
  also have "\<dots> = map_of (drop i log) ++ map_of (take i log)" by (simp only: map_of_append)
  finally have "map_of log d = (map_of (drop i log) ++ map_of (take i log)) d" by simp
  also from d have "\<dots> = map_of (take i log) d" by (simp add: map_add_dom_app_simps)
  finally show ?thesis by (simp add: output_of_def)
qed

lemma output_of_recorded: "d \<in> fst ` set log \<Longrightarrow> output_of log d \<noteq> None"
  by (simp add: output_of_def dom_map_of_conv_image_fst [symmetric] domIff)

lemma build_context_cong:
  "\<forall>d\<in>set ds. output_of A d = output_of B d \<Longrightarrow> build_context A ds = build_context B ds"
  by (induction ds) (auto split: option.splits)

lemma build_context_concat:
  "\<forall>d\<in>set ds. output_of log d \<noteq> None \<Longrightarrow>
     build_context log ds = concat (map (\<lambda>d. description d @ the (output_of log d)) ds)"
  by (induction ds) auto

lemma run_pipeline_ok:
  assumes "run_pipeline perform now_text tasks = (Inr res, log)"
  shows "check_order [] tasks = Inr ()" and "run_tasks perform [] tasks = (None, log)"
  using assms check_order_cases [of "[]" tasks]
  by (auto simp: run_pipeline_def split: sum.splits prod.splits option.splits)

lemma valid_pipeline_contexts:
  assumes ok: "run_pipeline perform now_text tasks = (Inr res, log)" and i: "i < length tasks"
  shows "map fst log = tasks"
    and "\<forall>d\<in>set (task_context (tasks ! i)). output_of log d \<noteq> None"
    and "fst (snd (log ! i)) =
      concat (map (\<lambda>d. description d @ the (output_of log d)) (task_context (tasks ! i)))"
proof -
  note c = run_pipeline_ok [OF ok]
  from run_tasks_order [OF c(2)] show m: "map fst log = tasks" by auto
  then have len: "length log = length tasks" by (metis length_map)
  from m i len have fi: "fst (log ! i) = tasks ! i" by (metis nth_map)
  from c(1) i have deps: "set (task_context (tasks ! i)) \<subseteq> set (take i tasks)"
    by (simp add: check_order_iff)
  have tk: "set (take i tasks) = fst ` set (take i log)"
    using m by (metis take_map set_map)
  have sub: "fst ` set (take i log) \<subseteq> fst ` set log"
    by (meson image_mono set_take_subset)
  show all: "\<forall>d\<in>set (task_context (tasks ! i)). output_of log d \<noteq> None"
  proof
    fix d assume "d \<in> set (task_context (tasks ! i))"
    with deps tk sub have "d \<in> fst ` set log" by blast
    then show "output_of log d \<noteq> None" by (rule output_of_recorded)
  qed
  from run_tasks_contexts [OF _ c(2)] i len fi
  have "fst (snd (log ! i)) = build_context (take i log) (task_context (tasks ! i))" by simp
  also have "\<dots> = build_context log (task_context (tasks ! i))"
    using deps tk by (intro build_context_cong) (auto intro!: output_of_take)
  also have "\<dots> = concat (map (\<lambda>d. description d @ the (output_of log d)) (task_context (tasks ! i)))"
    using all by (rule build_context_concat)
  finally show "fst (snd (log ! i)) =
      concat (map (\<lambda>d. description d @ the (output_of log d)) (task_context (tasks ! i)))" .
qed

lemma task_contexts:
  "task_context market_research_task = []"
  "task_context stock_selection_task = [market_research_task]"
  "task_context investment_report_task = [market_research_task, stock_selection_task]"
  by (simp_all add: market_research_task_def stock_selection_task_def investment_report_task_def)

lemma tasks_differ:
  "stock_selection_task \<noteq> market_research_task"
  "investment_report_task \<noteq> market_research_task"
  "investment_report_task \<noteq> stock_selection_task"
  by (simp_all add: market_research_task_def stock_selection_task_def investment_report_task_def)

lemma investment_crew_order: "check_order [] investment_crew_tasks = Inr ()"
  by (simp add: investment_crew_tasks_def task_contexts)

lemma investment_crew_record:
  assumes "run_pipeline perform now_text investment_crew_tasks = (Inr res, log)"
  shows "\<exists>out1 out2 out3. log =
     [(market_research_task, [], out1),
      (stock_selection_task, description market_research_task @ out1, out2),
      (investment_report_task,
       description market_research_task @ out1 @ description stock_selection_task @ out2, out3)]"
proof -
  from run_pipeline_ok(2) [OF assms]
  have r: "run_tasks perform [] investment_crew_tasks = (None, log)" .
  obtain out1 where 1: "perform market_research_task [] = Inr out1"
    using r by (cases "perform market_research_task []")
      (simp_all add: investment_crew_tasks_def task_contexts)
  obtain out2 where 2: "perform stock_selection_task (description market_research_task @ out1) = Inr out2"
    using r 1 by (cases "perform stock_selection_task (description market_research_task @ out1)")
      (simp_all add: investment_crew_tasks_def task_contexts output_of_def)
  obtain out3 where 3: "perform investment_report_task
      (description market_research_task @ out1 @ description stock_selection_task @ out2) = Inr out3"
    using r 1 2 by (cases "perform investment_report_task
        (description market_research_task @ out1 @ description stock_selection_task @ out2)")
      (simp_all add: investment_crew_tasks_def task_contexts tasks_differ output_of_def)
  from r 1 2 3 show ?thesis
    by (auto simp add: investment_crew_tasks_def task_contexts tasks_differ output_of_def)
qed

lemma run_pipeline_prefix: "prefix (map fst (snd (run_pipeline perform now_text tasks))) tasks"
proof (cases "check_order [] tasks")
  case (Inl e)
  then show ?thesis by (simp add: run_pipeline_def)
next
  case (Inr ok)
  obtain r log where r: "run_tasks perform [] tasks = (r, log)"
    by (cases "run_tasks perform [] tasks")
  from run_tasks_order [OF r] obtain k where "map fst log = take k tasks" by auto
  then have "prefix (map fst log) tasks" by (simp add: take_is_prefix)
  with Inr r show ?thesis by (simp add: run_pipeline_def split: option.splits)
qed

text \<open>
  C5, on the pipeline modelled from the specification. In every run the tasks
  executed are, in order, an initial part of the declared sequence, and all of it
  when the run succeeds. In a successful run every dependency of every task has a
  recorded output, and the context the task was given is the concatenation, in the
  order of its dependency list, of each dependency's description followed by that
  dependency's output. For the three tasks of app.py: the first task gets the empty
  context, the second the first task's description and output, and the third the
  first task's description and output followed by the second task's description and
  output.
\<close>

theorem pipeline_order_and_context:
  "prefix (map fst (snd (run_pipeline perform now_text tasks))) tasks \<and>
   (run_pipeline perform now_text tasks = (Inr res, log) \<longrightarrow>
      map fst log = tasks \<and>
      (\<forall>i<length tasks.
         (\<forall>d\<in>set (task_context (tasks ! i)). output_of log d \<noteq> None) \<and>
         fst (snd (log ! i)) =
           concat (map (\<lambda>d. description d @ the (output_of log d)) (task_context (tasks ! i))))) \<and>
   (run_pipeline perform now_text investment_crew_tasks = (Inr res', log') \<longrightarrow>
      (\<exists>out1 out2 out3. log' =
         [(market_research_task, [], out1),
          (stock_selection_task, description market_research_task @ out1, out2),
          (investment_report_task,
           description market_research_task @ out1 @ description stock_selection_task @ out2,
           out3)]))"
proof (intro conjI impI allI)
  show "prefix (map fst (snd (run_pipeline perform now_text tasks))) tasks"
    by (rule run_pipeline_prefix)
next
  assume ok: "run_pipeline perform now_text tasks = (Inr res, log)"
  then show "map fst log = tasks"
    by (cases tasks) (auto simp: run_pipeline_def dest!: run_tasks_order
        split: sum.splits prod.splits option.splits)
  fix i assume i: "i < length tasks"
  from valid_pipeline_contexts(2) [OF ok i]
  show "\<forall>d\<in>set (task_context (tasks ! i)). output_of log d \<noteq> None" .
  from valid_pipeline_contexts(3) [OF ok i]
  show "fst (snd (log ! i)) =
      concat (map (\<lambda>d. description d @ the (output_of log d)) (task_context (tasks ! i)))" .
next
  assume "run_pipeline perform now_text investment_crew_tasks = (Inr res', log')"
  then show "\<exists>out1 out2 out3. log' =
     [(market_research_task, [], out1),
      (stock_selection_task, description market_research_task @ out1, out2),
      (investment_report_task,
       description market_research_task @ out1 @ description stock_selection_task @ out2, out3)]"
    by (rule investment_crew_record)
qed

theorem pipeline_order_and_context_witness:
  "run_pipeline echo ''2025-01-01 12:00:00'' investment_crew_tasks =
     (Inr \<lparr>result_text =
             description market_research_task @ ''<Stock Market Researcher>'' @
             description stock_selection_task @ description market_research_task @
             ''<Stock Market Researcher><Stock Analyst><Investment Advisor>'',
           completed_at = ''2025-01-01 12:00:00''\<rparr>,
      [(market_research_task, [], ''<Stock Market Researcher>''),
       (stock_selection_task,
        description market_research_task @ ''<Stock Market Researcher>'',
        description market_research_task @ ''<Stock Market Researcher><Stock Analyst>''),
       (investment_report_task,
        description market_research_task @ ''<Stock Market Researcher>'' @
        description stock_selection_task @ description market_research_task @
        ''<Stock Market Researcher><Stock Analyst>'',
        description market_research_task @ ''<Stock Market Researcher>'' @
        description stock_selection_task @ description market_research_task @
        ''<Stock Market Researcher><Stock Analyst><Investment Advisor>'')]) \<and>
   map fst (snd (run_pipeline echo ''2025-01-01 12:00:00'' investment_crew_tasks)) =
     investment_crew_tasks \<and>
   fst (snd (snd (run_pipeline echo ''2025-01-01 12:00:00'' investment_crew_tasks) ! 2)) =
     description market_research_task @ ''<Stock Market Researcher>'' @
     description stock_selection_task @ description market_research_task @
     ''<Stock Market Researcher><Stock Analyst>''"
proof -
  let ?res = "\<lparr>result_text =
             description market_research_task @ ''<Stock Market Researcher>'' @
             description stock_selection_task @ description market_research_task @
             ''<Stock Market Researcher><Stock Analyst><Investment Advisor>'',
           completed_at = ''2025-01-01 12:00:00''\<rparr>"
  let ?log = "[(market_research_task, [], ''<Stock Market Researcher>''),
       (stock_selection_task,
        description market_research_task @ ''<Stock Market Researcher>'',
        description market_research_task @ ''<Stock Market Researcher><Stock Analyst>''),
       (investment_report_task,
        description market_research_task @ ''<Stock Market Researcher>'' @
        description stock_selection_task @ description market_research_task @
        ''<Stock Market Researcher><Stock Analyst>'',
        description market_research_task @ ''<Stock Market Researcher>'' @
        description stock_selection_task @ description market_research_task @
        ''<Stock Market Researcher><Stock Analyst><Investment Advisor>'')]"
  have roles: "role (agent market_research_task) = ''Stock Market Researcher''"
    "role (agent stock_selection_task) = ''Stock Analyst''"
    "role (agent investment_report_task) = ''Investment Advisor''"
    by (simp_all add: market_research_task_def stock_selection_task_def
          investment_report_task_def market_researcher_def stock_analyst_def
          investment_advisor_def)
  have run: "run_pipeline echo ''2025-01-01 12:00:00'' investment_crew_tasks = (Inr ?res, ?log)"
    by (simp add: run_pipeline_def investment_crew_order)
       (simp add: investment_crew_tasks_def task_contexts tasks_differ output_of_def
          echo_def roles)
  from pipeline_order_and_context [of echo "''2025-01-01 12:00:00''" investment_crew_tasks
      ?res ?log ?res ?log] run
  have "map fst ?log = investment_crew_tasks" by blast
  with run show ?thesis by simp
qed

text \<open>
  C6, on the check modelled from the specification. The check passes exactly when
  every task's dependency list holds only tasks listed earlier in the sequence. A
  pipeline in which some task names a dependency that is not listed before it (a
  later-listed task in particular) is rejected with \<open>DependencyOrderError\<close> and the
  record of the run is empty, whatever the agents would do: nothing was executed.
  The declarations of app.py pass the check.
\<close>

theorem dependency_order_checked:
  "(check_order [] tasks = Inr () \<longleftrightarrow>
      (\<forall>i<length tasks. set (task_context (tasks ! i)) \<subseteq> set (take i tasks))) \<and>
   ((\<exists>i<length tasks. \<exists>d\<in>set (task_context (tasks ! i)). d \<notin> set (take i tasks)) \<longrightarrow>
      run_pipeline perform now_text tasks = (Inl (DependencyOrderError, None), [])) \<and>
   check_order [] investment_crew_tasks = Inr ()"
proof (intro conjI impI)
  show iff: "check_order [] tasks = Inr () \<longleftrightarrow>
      (\<forall>i<length tasks. set (task_context (tasks ! i)) \<subseteq> set (take i tasks))"
    by (simp add: check_order_iff)
  assume "\<exists>i<length tasks. \<exists>d\<in>set (task_context (tasks ! i)). d \<notin> set (take i tasks)"
  with iff have "check_order [] tasks \<noteq> Inr ()" by blast
  with check_order_cases [of "[]" tasks]
  have "check_order [] tasks = Inl DependencyOrderError" by blast
  then show "run_pipeline perform now_text tasks = (Inl (DependencyOrderError, None), [])"
    by (simp add: run_pipeline_def)
next
  show "check_order [] investment_crew_tasks = Inr ()" by (rule investment_crew_order)
qed

theorem dependency_order_checked_witness:
  "market_research_task \<in> set (task_context ([stock_selection_task, market_research_task] ! 0)) \<and>
   market_research_task \<notin> set (take 0 [stock_selection_task, market_research_task]) \<and>
   [stock_selection_task, market_research_task] ! 1 = market_research_task \<and>
   run_pipeline echo ''2025-01-01 12:00:00'' [stock_selection_task, market_research_task] =
     (Inl (DependencyOrderError, None), []) \<and>
   check_order [] [stock_selection_task, market_research_task] = Inl DependencyOrderError \<and>
   check_order [] investment_crew_tasks = Inr ()"
proof -
  have a: "market_research_task \<in> set (task_context ([stock_selection_task, market_research_task] ! 0))"
    and b: "market_research_task \<notin> set (take 0 [stock_selection_task, market_research_task])"
    by (simp_all add: task_contexts)
  then have "\<exists>i<length [stock_selection_task, market_research_task].
      \<exists>d\<in>set (task_context ([stock_selection_task, market_research_task] ! i)).
        d \<notin> set (take i [stock_selection_task, market_research_task])"
    by (intro exI [of _ 0]) auto
  with dependency_order_checked [of "[stock_selection_task, market_research_task]" echo
      "''2025-01-01 12:00:00''"]
  have r: "run_pipeline echo ''2025-01-01 12:00:00'' [stock_selection_task, market_research_task] =
     (Inl (DependencyOrderError, None), [])" by blast
  from dependency_order_checked [of investment_crew_tasks echo "''2025-01-01 12:00:00''"]
  have c: "check_order [] investment_crew_tasks = Inr ()" by blast
  have d: "check_order [] [stock_selection_task, market_research_task] = Inl DependencyOrderError"
    by (simp add: task_contexts)
  from a b r c d show ?thesis by simp
qed

text \<open>
  C7, on the reasoning loop modelled from the specification. The loop is a total
  function: it returns for every model, tool set and bound. It never runs the tools
  more often than the bound allows. With a model that answers every call with a
  tool call the loop never returns an answer: it ends in an error; and when each of
  these tool calls names a tool of the agent whose run returns, the error is
  \<open>ReasoningLimitExceeded\<close>, raised after exactly the maximum number of rounds.
\<close>

theorem reasoning_loop_bounded:
  "snd (reasoning_loop generate toolbox max_rounds transcript) \<le> max_rounds \<and>
   ((\<forall>p ns. \<exists>name query. generate p ns = Inr (ToolCall name query)) \<longrightarrow>
      (\<exists>e. fst (reasoning_loop generate toolbox max_rounds transcript) = Inl e)) \<and>
   ((\<forall>p. \<exists>name query run result.
        generate p (map fst toolbox) = Inr (ToolCall name query) \<and>
        map_of toolbox name = Some run \<and> run query = Inr result) \<longrightarrow>
      reasoning_loop generate toolbox max_rounds transcript =
        (Inl ReasoningLimitExceeded, max_rounds))"
  using reasoning_loop_bound reasoning_loop_no_answer reasoning_loop_limit by blast

theorem reasoning_loop_bounded_witness:
  "(\<forall>p ns. always_tool_call p ns = Inr (ToolCall ''search'' ''X'')) \<and>
   map_of search_tool ''search'' = Some (\<lambda>query. Inr (''RESULT:'' @ query)) \<and>
   reasoning_loop always_tool_call search_tool 3 ''prompt'' = (Inl ReasoningLimitExceeded, 3)"
proof -
  have g: "\<forall>p ns. always_tool_call p ns = Inr (ToolCall ''search'' ''X'')"
    by (simp add: always_tool_call_def)
  have m: "map_of search_tool ''search'' = Some (\<lambda>query. Inr (''RESULT:'' @ query))"
    by (simp add: search_tool_def)
  have "\<forall>p. \<exists>name query run result.
        always_tool_call p (map fst search_tool) = Inr (ToolCall name query) \<and>
        map_of search_tool name = Some run \<and> run query = Inr result"
    using g m by auto
  with reasoning_loop_bounded [of always_tool_call search_tool 3 "''prompt''"]
  have "reasoning_loop always_tool_call search_tool 3 ''prompt'' = (Inl ReasoningLimitExceeded, 3)"
    by blast
  with g m show ?thesis by simp
qed

end
